theory Spec2Isabelle
  imports Main "HOL-Library.Sublist"
begin

section \<open>Strings as the code sees them\<close>

text \<open>
  A JavaScript string is modelled as a \<^typ>\<open>string\<close>: one \<^typ>\<open>char\<close> per code unit,
  for the code units 0..255. The regular expressions of the sanitizer are literal
  phrases with the flag \<open>i\<close> and without the flag \<open>u\<close>: they compare code units after
  case folding, and only the letters A..Z and a..z fold onto one another.
\<close>

definition is_space :: "char \<Rightarrow> bool" where
  \<comment> \<open>what \<open>String.prototype.trim\<close> strips: TAB, LF, VT, FF, CR, SP and NBSP\<close>
  "is_space c = (c \<in> set [CHR 0x09, CHR 0x0A, CHR 0x0B, CHR 0x0C, CHR 0x0D, CHR 0x20, CHR 0xA0])"

definition trim :: "string \<Rightarrow> string" where
  "trim s = rev (dropWhile is_space (rev (dropWhile is_space s)))"

definition lower :: "char \<Rightarrow> char" where
  \<comment> \<open>case folding of a code unit: A..Z onto a..z, every other code unit onto itself\<close>
  "lower c =
     (case map_of (zip ''ABCDEFGHIJKLMNOPQRSTUVWXYZ'' ''abcdefghijklmnopqrstuvwxyz'') c of
        None \<Rightarrow> c
      | Some l \<Rightarrow> l)"

fun starts_with_ci :: "string \<Rightarrow> string \<Rightarrow> bool" where
  \<comment> \<open>the literal pattern matches at the head of the text, case-insensitively\<close>
  "starts_with_ci [] s = True"
| "starts_with_ci (p # ps) [] = False"
| "starts_with_ci (p # ps) (c # cs) = (lower p = lower c \<and> starts_with_ci ps cs)"

fun search :: "string \<Rightarrow> string \<Rightarrow> nat option" where
  \<comment> \<open>\<open>text.search(/pat/i)\<close>: index of the first match, \<open>None\<close> for -1\<close>
  "search pat [] = (if starts_with_ci pat [] then Some 0 else None)"
| "search pat (c # cs) =
     (if starts_with_ci pat (c # cs) then Some 0 else map_option Suc (search pat cs))"

fun replace_all :: "string \<Rightarrow> string \<Rightarrow> string" where
  \<comment> \<open>\<open>text.replace(/pat/gi, "")\<close> for a non-empty literal pattern: matches are taken
      left to right and do not overlap\<close>
  "replace_all pat [] = []"
| "replace_all pat (c # cs) =
     (if starts_with_ci pat (c # cs) then replace_all pat (drop (length pat - 1) cs)
      else c # replace_all pat cs)"

fun split_nl :: "string \<Rightarrow> string list" where
  \<comment> \<open>\<open>text.split("\n")\<close>\<close>
  "split_nl [] = [[]]"
| "split_nl (c # cs) =
     (if c = CHR 0x0A then [] # split_nl cs
      else (case split_nl cs of [] \<Rightarrow> [[c]] | l # ls \<Rightarrow> (c # l) # ls))"

fun join :: "string \<Rightarrow> string list \<Rightarrow> string" where
  \<comment> \<open>\<open>parts.join(sep)\<close>\<close>
  "join sep [] = []"
| "join sep [x] = x"
| "join sep (x # y # ys) = x @ sep @ join sep (y # ys)"

section \<open>The sanitizer: \<open>cleanXmlContent\<close>\<close>

definition browser_messages :: "string list" where
  "browser_messages =
     [''This XML file does not appear to have any style information associated with it.'',
      ''The document tree is shown below.'',
      ''This page contains the following errors:'',
      ''Below is a rendering of the page up to the first error.'']"

definition remove_messages :: "string \<Rightarrow> string" where
  \<comment> \<open>the four chained \<open>replace\<close> calls, in the order of the source\<close>
  "remove_messages content = foldl (\<lambda>s pat. replace_all pat s) content browser_messages"

definition xmlStartPatterns :: "string list" where
  "xmlStartPatterns = [''<?xml'', ''<urlset'', ''<sitemapindex'', ''<rss'', ''<feed'']"

fun find_xml_start :: "string list \<Rightarrow> string \<Rightarrow> nat option" where
  \<comment> \<open>the \<open>for\<close> loop over the patterns: the first pattern that matches anywhere decides
      \<open>xmlStart\<close> and the loop breaks\<close>
  "find_xml_start [] cleaned = None"
| "find_xml_start (pattern # rest) cleaned =
     (case search pattern cleaned of
        Some m \<Rightarrow> Some m
      | None \<Rightarrow> find_xml_start rest cleaned)"

definition cut_to_xml_start :: "string \<Rightarrow> string" where
  "cut_to_xml_start cleaned =
     (case find_xml_start xmlStartPatterns cleaned of
        Some xmlStart \<Rightarrow> drop xmlStart cleaned
      | None \<Rightarrow> cleaned)"

definition is_xml_line :: "string \<Rightarrow> bool" where
  \<comment> \<open>\<open>trimmedLine.startsWith("<") || trimmedLine === ""\<close>\<close>
  "is_xml_line l = (case trim l of [] \<Rightarrow> True | c # _ \<Rightarrow> c = CHR ''<'')"

fun first_xml_line :: "nat \<Rightarrow> string list \<Rightarrow> nat" where
  \<comment> \<open>the scan over the lines from index \<open>i\<close>; \<open>firstXmlLine\<close> keeps its initial 0 when
      no line qualifies\<close>
  "first_xml_line i [] = 0"
| "first_xml_line i (l # ls) = (if is_xml_line l then i else first_xml_line (Suc i) ls)"

definition drop_leading_lines :: "string \<Rightarrow> string" where
  "drop_leading_lines cleaned =
     (let lines = split_nl cleaned;
          firstXmlLine = first_xml_line 0 lines
      in if firstXmlLine > 0 then join [CHR 0x0A] (drop firstXmlLine lines) else cleaned)"

definition cleanXmlContent :: "string \<Rightarrow> string" where
  "cleanXmlContent content =
     trim (drop_leading_lines (cut_to_xml_start (trim (remove_messages content))))"

definition occurs_at :: "string \<Rightarrow> string \<Rightarrow> nat \<Rightarrow> bool" where
  \<comment> \<open>the reading of "occurs" that the properties below use: the phrase \<open>pat\<close> stands
      in the text \<open>s\<close> at index \<open>i\<close>, letters compared without regard to case\<close>
  "occurs_at pat s i =
     (i + length pat \<le> length s \<and> map lower (take (length pat) (drop i s)) = map lower pat)"

section \<open>The parsed document\<close>

text \<open>
  The XML parser is the browser's \<open>DOMParser\<close>; the code only walks the document it
  returns. A node is an element (local name, attributes by qualified name, children),
  a text node or a comment. The selectors of the code are type selectors without a
  namespace, which select on the local name alone, at any depth below the node
  they are asked on, in document order. When the text is malformed the parser returns
  a document that holds a \<open>parsererror\<close> element, and that is the only sign of failure
  the code looks at.
\<close>

datatype node =
    Element string "(string \<times> string) list" "node list"
  | Text string
  | Comment string

type_synonym document = "node list"

fun childNodes :: "node \<Rightarrow> node list" where
  "childNodes (Element nm atts cs) = cs"
| "childNodes (Text t) = []"
| "childNodes (Comment t) = []"

fun elements :: "node \<Rightarrow> node list" where
  \<comment> \<open>the elements of a subtree, the root included, in document order\<close>
  "elements (Element nm atts cs) = Element nm atts cs # concat (map elements cs)"
| "elements (Text t) = []"
| "elements (Comment t) = []"

fun matches :: "string list \<Rightarrow> node \<Rightarrow> bool" where
  \<comment> \<open>a selector list of type selectors\<close>
  "matches sels (Element nm atts cs) = (nm \<in> set sels)"
| "matches sels (Text t) = False"
| "matches sels (Comment t) = False"

definition querySelectorAll :: "string list \<Rightarrow> node list \<Rightarrow> node list" where
  \<comment> \<open>asked on a document or an element with the children \<open>cs\<close>\<close>
  "querySelectorAll sels cs = filter (matches sels) (concat (map elements cs))"

definition querySelector :: "string list \<Rightarrow> node list \<Rightarrow> node option" where
  "querySelector sels cs =
     (case querySelectorAll sels cs of [] \<Rightarrow> None | e # _ \<Rightarrow> Some e)"

fun textContent :: "node \<Rightarrow> string" where
  \<comment> \<open>of an element: the data of its text descendants, concatenated\<close>
  "textContent (Element nm atts cs) = concat (map textContent cs)"
| "textContent (Text t) = t"
| "textContent (Comment t) = []"

fun getAttribute :: "node \<Rightarrow> string \<Rightarrow> string option" where
  "getAttribute (Element nm atts cs) a = map_of atts a"
| "getAttribute (Text t) a = None"
| "getAttribute (Comment t) a = None"

definition query_text :: "string \<Rightarrow> node \<Rightarrow> string option" where
  \<comment> \<open>\<open>el.querySelector(sel)?.textContent\<close>\<close>
  "query_text sel el = map_option textContent (querySelector [sel] (childNodes el))"

definition or_empty :: "string option \<Rightarrow> string" where
  \<comment> \<open>\<open>value || ""\<close>\<close>
  "or_empty v = (case v of None \<Rightarrow> [] | Some s \<Rightarrow> s)"

definition to_str :: "string option \<Rightarrow> string" where
  \<comment> \<open>a value that may be \<open>null\<close>, inside a template literal\<close>
  "to_str v = (case v of None \<Rightarrow> ''null'' | Some s \<Rightarrow> s)"

section \<open>The extractor: \<open>parseSitemap\<close>\<close>

record SitemapEntry =
  url :: string
  lastModified :: "string option"
  changeFrequency :: "string option"
  priority :: "string option"
  alternates :: "string option"

datatype error = NoContent | InvalidXml | NoUrlsFound

fun error_message :: "error \<Rightarrow> string" where
  "error_message NoContent = ''No content provided''"
| "error_message InvalidXml = ''Invalid XML format''"
| "error_message NoUrlsFound = ''No URLs found in the sitemap''"

definition alternate_pair :: "node \<Rightarrow> string" where
  "alternate_pair alt =
     to_str (getAttribute alt ''hreflang'') @ '': '' @ to_str (getAttribute alt ''href'')"

definition alternateUrls :: "node list \<Rightarrow> string" where
  "alternateUrls alts = join ''; '' (map alternate_pair alts)"

definition url_entry :: "string \<Rightarrow> node \<Rightarrow> SitemapEntry" where
  \<comment> \<open>the entry built for a \<open>url\<close> element whose location is \<open>loc\<close>\<close>
  "url_entry loc urlElement =
     (let entry = \<lparr>url = loc,
                   lastModified = Some (or_empty (query_text ''lastmod'' urlElement)),
                   changeFrequency = Some (or_empty (query_text ''changefreq'' urlElement)),
                   priority = Some (or_empty (query_text ''priority'' urlElement)),
                   alternates = None\<rparr>;
          alts = querySelectorAll [''xhtml:link'', ''link''] (childNodes urlElement)
      in if length alts > 0 then entry\<lparr>alternates := Some (alternateUrls alts)\<rparr> else entry)"

definition push_url :: "SitemapEntry list \<Rightarrow> node \<Rightarrow> SitemapEntry list" where
  \<comment> \<open>the body of the \<open>forEach\<close> over the \<open>url\<close> elements; \<open>if (loc)\<close> holds for a
      string that is present and not empty\<close>
  "push_url urls urlElement =
     (case query_text ''loc'' urlElement of
        None \<Rightarrow> urls
      | Some loc \<Rightarrow> if loc = [] then urls else urls @ [url_entry loc urlElement])"

definition sitemap_entry :: "string \<Rightarrow> node \<Rightarrow> SitemapEntry" where
  "sitemap_entry loc sitemapElement =
     \<lparr>url = loc,
      lastModified = Some (or_empty (query_text ''lastmod'' sitemapElement)),
      changeFrequency = Some ''Sitemap Index'',
      priority = Some [],
      alternates = None\<rparr>"

definition push_sitemap :: "SitemapEntry list \<Rightarrow> node \<Rightarrow> SitemapEntry list" where
  \<comment> \<open>the body of the \<open>forEach\<close> over the \<open>sitemap\<close> elements\<close>
  "push_sitemap urls sitemapElement =
     (case query_text ''loc'' sitemapElement of
        None \<Rightarrow> urls
      | Some loc \<Rightarrow> if loc = [] then urls else urls @ [sitemap_entry loc sitemapElement])"

definition has_location :: "node \<Rightarrow> bool" where
  \<comment> \<open>the test \<open>if (loc)\<close> of both loops\<close>
  "has_location el = (case query_text ''loc'' el of None \<Rightarrow> False | Some loc \<Rightarrow> loc \<noteq> [])"

definition url_pass :: "document \<Rightarrow> SitemapEntry list" where
  "url_pass xmlDoc = foldl push_url [] (querySelectorAll [''url''] xmlDoc)"

definition extractEntries :: "document \<Rightarrow> error + SitemapEntry list" where
  \<comment> \<open>\<open>parseSitemap\<close> from the parsed document on\<close>
  "extractEntries xmlDoc =
     (if querySelector [''parsererror''] xmlDoc \<noteq> None then Inl InvalidXml
      else
        let urls = url_pass xmlDoc;
            urls = (if length urls = 0
                    then foldl push_sitemap urls (querySelectorAll [''sitemap''] xmlDoc)
                    else urls)
        in if length urls = 0 then Inl NoUrlsFound else Inr urls)"

definition parseSitemap ::
  "(string \<Rightarrow> document) \<Rightarrow> string option \<Rightarrow> string \<Rightarrow> string
     \<Rightarrow> (error + SitemapEntry list) option" where
  \<comment> \<open>\<open>parseFromString\<close> is the browser's parser; \<open>file\<close> is the text of the chosen
      file, if one is chosen. \<open>None\<close> is the early return that changes nothing.\<close>
  "parseSitemap parseFromString file xmlContent activeTab =
     (if file = None \<and> trim xmlContent = [] then None
      else Some
        (case (if activeTab = ''upload'' \<and> file \<noteq> None
               then map_option cleanXmlContent file
               else if activeTab = ''paste'' \<and> trim xmlContent \<noteq> []
               then Some (cleanXmlContent (trim xmlContent))
               else None) of
           None \<Rightarrow> Inl NoContent
         | Some text \<Rightarrow> extractEntries (parseFromString text)))"

section \<open>The serializer: \<open>downloadCSV\<close>\<close>

definition headers :: "string list" where
  "headers = [''URL'', ''Last Modified'', ''Change Frequency'', ''Priority'', ''Alternates'']"

definition quoted :: "string \<Rightarrow> string" where
  \<comment> \<open>the template that puts a value between two double quotes, unescaped\<close>
  "quoted s = [CHR 0x22] @ s @ [CHR 0x22]"

definition csv_row :: "SitemapEntry \<Rightarrow> string" where
  "csv_row entry =
     join '','' [quoted (url entry),
                quoted (or_empty (lastModified entry)),
                quoted (or_empty (changeFrequency entry)),
                quoted (or_empty (priority entry)),
                quoted (or_empty (alternates entry))]"

definition downloadCSV :: "SitemapEntry list \<Rightarrow> string option" where
  \<comment> \<open>the text handed to the download, \<open>None\<close> when the function returns before
      building it\<close>
  "downloadCSV sitemapData =
     (if length sitemapData = 0 then None
      else Some (join [CHR 0x0A] (join '','' headers # map csv_row sitemapData)))"

section \<open>Properties of the sanitizer\<close>

subsection \<open>Searching for a phrase\<close>

lemma starts_with_ci_iff:
  "starts_with_ci pat s \<longleftrightarrow> length pat \<le> length s \<and> map lower (take (length pat) s) = map lower pat"
  by (induction pat s rule: starts_with_ci.induct) auto

lemma occurs_at_starts_with: "occurs_at pat s i \<Longrightarrow> starts_with_ci pat (drop i s)"
  by (auto simp add: starts_with_ci_iff occurs_at_def)

lemma occurs_at_0: "occurs_at pat s 0 \<longleftrightarrow> starts_with_ci pat s"
  by (simp add: starts_with_ci_iff occurs_at_def)

lemma occurs_at_Suc: "occurs_at pat (c # cs) (Suc i) \<longleftrightarrow> occurs_at pat cs i"
  by (simp add: occurs_at_def)

lemma search_Some:
  "search pat s = Some i \<longleftrightarrow> occurs_at pat s i \<and> (\<forall>j < i. \<not> occurs_at pat s j)"
proof (induction s arbitrary: i)
  case Nil
  show ?case by (auto simp add: occurs_at_def starts_with_ci_iff)
next
  case (Cons c cs)
  show ?case
  proof (cases "starts_with_ci pat (c # cs)")
    case True
    then show ?thesis
      using occurs_at_0 [of pat "c # cs"] by auto
  next
    case False
    then have n0: "\<not> occurs_at pat (c # cs) 0" by (simp add: occurs_at_0)
    show ?thesis
    proof (cases i)
      case 0
      with False n0 show ?thesis by auto
    next
      case (Suc k)
      have "(\<forall>j < Suc k. \<not> occurs_at pat (c # cs) j) \<longleftrightarrow> (\<forall>j < k. \<not> occurs_at pat cs j)"
        using n0 by (auto simp add: less_Suc_eq_0_disj occurs_at_Suc)
      with False Suc Cons.IH [of k] show ?thesis
        by (auto simp add: occurs_at_Suc)
    qed
  qed
qed

lemma search_None: "search pat s = None \<longleftrightarrow> (\<forall>i. \<not> occurs_at pat s i)"
proof (induction s)
  case Nil
  show ?case by (auto simp add: occurs_at_def starts_with_ci_iff)
next
  case (Cons c cs)
  show ?case
  proof (cases "starts_with_ci pat (c # cs)")
    case True
    then show ?thesis using occurs_at_0 [of pat "c # cs"] by auto
  next
    case False
    then have n0: "\<not> occurs_at pat (c # cs) 0" by (simp add: occurs_at_0)
    have "(\<forall>i. \<not> occurs_at pat (c # cs) i) \<longleftrightarrow> (\<forall>i. \<not> occurs_at pat cs i)"
    proof
      assume a: "\<forall>i. \<not> occurs_at pat (c # cs) i"
      show "\<forall>i. \<not> occurs_at pat cs i"
      proof
        fix i from a have "\<not> occurs_at pat (c # cs) (Suc i)" by blast
        then show "\<not> occurs_at pat cs i" by (simp add: occurs_at_Suc)
      qed
    next
      assume a: "\<forall>i. \<not> occurs_at pat cs i"
      show "\<forall>i. \<not> occurs_at pat (c # cs) i"
      proof
        fix i show "\<not> occurs_at pat (c # cs) i"
          using n0 a by (cases i) (simp_all add: occurs_at_Suc)
      qed
    qed
    with False Cons.IH show ?thesis by simp
  qed
qed

lemma find_xml_start_None:
  "find_xml_start pats s = None \<longleftrightarrow> (\<forall>pat \<in> set pats. search pat s = None)"
  by (induction pats) (auto split: option.splits)

lemma find_xml_start_Some:
  "find_xml_start pats s = Some i \<Longrightarrow>
     \<exists>k < length pats. search (pats ! k) s = Some i \<and> (\<forall>j < k. search (pats ! j) s = None)"
proof (induction pats)
  case Nil
  then show ?case by simp
next
  case (Cons p ps)
  show ?case
  proof (cases "search p s")
    case (Some m)
    with Cons.prems have "m = i" by simp
    with Some have "search ((p # ps) ! 0) s = Some i \<and> (\<forall>j < (0::nat). search ((p # ps) ! j) s = None)"
      by simp
    then show ?thesis by blast
  next
    case None
    with Cons obtain k where k: "k < length ps" "search (ps ! k) s = Some i"
        "\<forall>j < k. search (ps ! j) s = None"
      by auto
    have "\<forall>j < Suc k. search ((p # ps) ! j) s = None"
      using None k(3) by (auto simp add: less_Suc_eq_0_disj)
    with k(1,2) have "Suc k < length (p # ps) \<and> search ((p # ps) ! Suc k) s = Some i
        \<and> (\<forall>j < Suc k. search ((p # ps) ! j) s = None)"
      by simp
    then show ?thesis by blast
  qed
qed

text \<open>
  C2, as amended. In the claim as written, step 3 cuts at the earliest place where any
  of the five openers stands. The loop of the code takes the openers in their fixed
  order (XML declaration, \<open>urlset\<close>, \<open>sitemapindex\<close>, \<open>rss\<close>, \<open>feed\<close>) and stops at the
  first one that occurs anywhere in the text. What holds: if none of the five occurs,
  the text is unchanged; otherwise the text is cut at the earliest occurrence of the
  first opener, in that order, that occurs at all.
\<close>

theorem cut_to_xml_start_by_priority:
  "((\<forall>pat \<in> set xmlStartPatterns. \<forall>i. \<not> occurs_at pat s i) \<longrightarrow> cut_to_xml_start s = s)
   \<and> ((\<exists>pat \<in> set xmlStartPatterns. \<exists>i. occurs_at pat s i) \<longrightarrow>
        (\<exists>k i. k < length xmlStartPatterns
           \<and> (\<forall>j < k. \<forall>i'. \<not> occurs_at (xmlStartPatterns ! j) s i')
           \<and> occurs_at (xmlStartPatterns ! k) s i
           \<and> (\<forall>i' < i. \<not> occurs_at (xmlStartPatterns ! k) s i')
           \<and> cut_to_xml_start s = drop i s))"
proof (intro conjI impI)
  assume "\<forall>pat \<in> set xmlStartPatterns. \<forall>i. \<not> occurs_at pat s i"
  then have "find_xml_start xmlStartPatterns s = None"
    by (simp add: find_xml_start_None search_None)
  then show "cut_to_xml_start s = s"
    by (simp add: cut_to_xml_start_def)
next
  assume "\<exists>pat \<in> set xmlStartPatterns. \<exists>i. occurs_at pat s i"
  then have "find_xml_start xmlStartPatterns s \<noteq> None"
    by (simp add: find_xml_start_None search_None)
  then obtain i where i: "find_xml_start xmlStartPatterns s = Some i"
    by blast
  from find_xml_start_Some [OF i] obtain k where k: "k < length xmlStartPatterns"
      "search (xmlStartPatterns ! k) s = Some i"
      "\<forall>j < k. search (xmlStartPatterns ! j) s = None"
    by blast
  have "cut_to_xml_start s = drop i s"
    using i by (simp add: cut_to_xml_start_def)
  with k show "\<exists>k i. k < length xmlStartPatterns
           \<and> (\<forall>j < k. \<forall>i'. \<not> occurs_at (xmlStartPatterns ! j) s i')
           \<and> occurs_at (xmlStartPatterns ! k) s i
           \<and> (\<forall>i' < i. \<not> occurs_at (xmlStartPatterns ! k) s i')
           \<and> cut_to_xml_start s = drop i s"
    by (auto simp add: search_Some search_None)
qed

text \<open>The amended C2 at a text without markup, and at one where \<open>rss\<close> comes before \<open>urlset\<close>.\<close>

theorem cut_to_xml_start_by_priority_witness:
  "cut_to_xml_start ''no markup here'' = ''no markup here''
   \<and> (\<exists>k i. k < length xmlStartPatterns
         \<and> (\<forall>j < k. \<forall>i'. \<not> occurs_at (xmlStartPatterns ! j) ''<rss> <URLSET><urlset>'' i')
         \<and> occurs_at (xmlStartPatterns ! k) ''<rss> <URLSET><urlset>'' i
         \<and> (\<forall>i' < i. \<not> occurs_at (xmlStartPatterns ! k) ''<rss> <URLSET><urlset>'' i')
         \<and> cut_to_xml_start ''<rss> <URLSET><urlset>'' = drop i ''<rss> <URLSET><urlset>'')
   \<and> cut_to_xml_start ''<rss> <URLSET><urlset>'' = ''<URLSET><urlset>''"
proof -
  have "\<forall>pat \<in> set xmlStartPatterns. search pat ''no markup here'' = None"
    by code_simp
  then have a: "\<forall>pat \<in> set xmlStartPatterns. \<forall>i. \<not> occurs_at pat ''no markup here'' i"
    by (simp only: search_None)
  have "occurs_at ''<rss'' ''<rss> <URLSET><urlset>'' 0"
    by code_simp
  then have b: "\<exists>pat \<in> set xmlStartPatterns. \<exists>i. occurs_at pat ''<rss> <URLSET><urlset>'' i"
    by (auto simp add: xmlStartPatterns_def)
  have c: "cut_to_xml_start ''<rss> <URLSET><urlset>'' = ''<URLSET><urlset>''"
    by code_simp
  show ?thesis
    using cut_to_xml_start_by_priority [of "''no markup here''"]
      cut_to_xml_start_by_priority [of "''<rss> <URLSET><urlset>''"] a b c
    by blast
qed

text \<open>
  C2 as written fails on a text that opens with the Atom root tag and holds the RSS root
  tag later: the earliest opener stands at index 0, so the claim leaves the text as it
  is, and the code cuts it at the RSS tag.
\<close>

theorem cut_to_xml_start_earliest_counterexample:
  "occurs_at ''<feed'' ''<feed><rss>'' 0
   \<and> cut_to_xml_start ''<feed><rss>'' = ''<rss>''
   \<and> cut_to_xml_start ''<feed><rss>'' \<noteq> drop 0 ''<feed><rss>''"
  by code_simp

subsection \<open>Every step deletes\<close>

lemma subseq_replace_all: "subseq (replace_all pat s) s"
proof (induction pat s rule: replace_all.induct)
  case (1 pat)
  show ?case by simp
next
  case (2 pat c cs)
  show ?case
  proof (cases "starts_with_ci pat (c # cs)")
    case True
    with 2 have "subseq (replace_all pat (drop (length pat - 1) cs)) (drop (length pat - 1) cs)"
      by simp
    also have "subseq (drop (length pat - 1) cs) (c # cs)"
      by (simp add: suffix_ConsI suffix_drop suffix_imp_subseq)
    finally show ?thesis using True by simp
  next
    case False
    with 2 show ?thesis by simp
  qed
qed

lemma subseq_remove_messages: "subseq (remove_messages s) s"
proof -
  have "subseq (foldl (\<lambda>s pat. replace_all pat s) s pats) s" for pats
  proof (induction pats arbitrary: s)
    case Nil
    show ?case by simp
  next
    case (Cons p ps)
    have "subseq (foldl (\<lambda>s pat. replace_all pat s) (replace_all p s) ps) (replace_all p s)"
      by (rule Cons.IH)
    also have "subseq (replace_all p s) s" by (rule subseq_replace_all)
    finally show ?case by simp
  qed
  then show ?thesis by (simp add: remove_messages_def)
qed

lemma sublist_trim: "sublist (trim s) s"
proof -
  have "sublist (dropWhile is_space (rev (dropWhile is_space s))) (rev (dropWhile is_space s))"
    by (rule sublist_dropWhile)
  then have "sublist (trim s) (dropWhile is_space s)"
    by (simp add: trim_def sublist_rev_left)
  also have "sublist (dropWhile is_space s) s" by (rule sublist_dropWhile)
  finally show ?thesis .
qed

lemma sublist_cut_to_xml_start: "sublist (cut_to_xml_start s) s"
  by (simp add: cut_to_xml_start_def split: option.splits)

lemma join_split_nl: "join [CHR 0x0A] (split_nl s) = s"
proof (induction s)
  case Nil
  show ?case by simp
next
  case (Cons c cs)
  then show ?case
    by (cases "split_nl cs"; cases "tl (split_nl cs)") (auto split: list.splits)
qed

lemma suffix_join_drop: "suffix (join sep (drop k ls)) (join sep ls)"
proof (induction ls arbitrary: k)
  case Nil
  show ?case by simp
next
  case (Cons l ls)
  show ?case
  proof (cases k)
    case 0
    then show ?thesis by simp
  next
    case (Suc k')
    have "suffix (join sep (drop k' ls)) (join sep ls)" by (rule Cons.IH)
    also have "suffix (join sep ls) (join sep (l # ls))"
      by (cases ls) (simp_all add: suffix_def)
    finally show ?thesis using Suc by simp
  qed
qed

lemma suffix_drop_leading_lines: "suffix (drop_leading_lines s) s"
  using suffix_join_drop [of "[CHR 0x0A]" "first_xml_line 0 (split_nl s)" "split_nl s"]
  by (simp add: drop_leading_lines_def Let_def join_split_nl)

text \<open>
  C9. The sanitized text is never longer than the input. More than that: it is the
  input with some characters deleted, the others kept in their order.
\<close>

theorem sanitize_only_deletes:
  "length (cleanXmlContent x) \<le> length x \<and> subseq (cleanXmlContent x) x"
proof -
  let ?a = "remove_messages x"
  let ?b = "trim ?a"
  let ?c = "cut_to_xml_start ?b"
  let ?d = "drop_leading_lines ?c"
  have "sublist (trim ?d) ?d" by (rule sublist_trim)
  also have "sublist ?d ?c" by (simp add: suffix_drop_leading_lines)
  also have "sublist ?c ?b" by (rule sublist_cut_to_xml_start)
  also have "sublist ?b ?a" by (rule sublist_trim)
  finally have "subseq (cleanXmlContent x) ?a"
    by (simp add: cleanXmlContent_def sublist_imp_subseq)
  also have "subseq ?a x" by (rule subseq_remove_messages)
  finally have s: "subseq (cleanXmlContent x) x" .
  then have "length (cleanXmlContent x) \<le> length x"
    by (rule list_emb_length)
  with s show ?thesis by simp
qed


subsection \<open>Sanitizing twice\<close>

lemma replace_all_absent: "search pat s = None \<Longrightarrow> replace_all pat s = s"
  by (induction s) (auto split: if_splits)

lemma remove_messages_absent:
  "\<forall>pat \<in> set browser_messages. search pat s = None \<Longrightarrow> remove_messages s = s"
  by (simp add: remove_messages_def browser_messages_def replace_all_absent)

lemma trim_append_kept:
  assumes "u \<noteq> []" and "\<not> is_space (hd u)" and "\<not> is_space (last u)"
  shows "trim (u @ v) = u @ rev (dropWhile is_space (rev v))"
proof -
  from assms(1,2) have a: "dropWhile is_space (u @ v) = u @ v"
    by (cases u) simp_all
  from assms(1) obtain w l where u: "u = w @ [l]"
    by (cases u rule: rev_cases) auto
  with assms(3) have "\<not> is_space l" by simp
  then have "dropWhile is_space (rev v @ l # rev w) = dropWhile is_space (rev v) @ l # rev w"
    by (rule dropWhile_append3)
  then have "rev (dropWhile is_space (rev (u @ v))) = u @ rev (dropWhile is_space (rev v))"
    by (simp add: u)
  with a show ?thesis by (simp only: trim_def)
qed

lemma trim_fixed:
  "u \<noteq> [] \<Longrightarrow> \<not> is_space (hd u) \<Longrightarrow> \<not> is_space (last u) \<Longrightarrow> trim u = u"
  using trim_append_kept [of u "[]"] by simp

lemma trim_ends: "trim s = [] \<or> (\<not> is_space (hd (trim s)) \<and> \<not> is_space (last (trim s)))"
proof (cases "trim s = []")
  case True
  then show ?thesis by simp
next
  case False
  let ?t = "dropWhile is_space s"
  let ?r = "dropWhile is_space (rev ?t)"
  from False have r: "?r \<noteq> []" by (simp add: trim_def)
  then have t: "?t \<noteq> []" by (metis dropWhile.simps(1) rev.simps(1))
  have "\<not> is_space (hd ?r)" using r by (rule hd_dropWhile)
  then have l: "\<not> is_space (last (trim s))"
    using r by (simp add: trim_def last_rev)
  have "suffix ?r (rev ?t)" by (rule suffix_dropWhile)
  then obtain zs where "rev ?t = zs @ ?r" by (auto simp add: suffix_def)
  with r have "last ?r = last (rev ?t)" by (metis last_appendR)
  then have "hd (trim s) = hd ?t"
    using t r by (simp add: trim_def hd_rev last_rev)
  moreover have "\<not> is_space (hd ?t)" using t by (rule hd_dropWhile)
  ultimately show ?thesis using l by simp
qed

lemma trim_trim: "trim (trim s) = trim s"
proof (cases "trim s = []")
  case True
  have "trim [] = []" by (simp add: trim_def)
  with True show ?thesis by simp
next
  case False
  with trim_ends [of s] show ?thesis by (simp add: trim_fixed)
qed

lemma occurs_at_sublist:
  assumes "sublist y a" and "occurs_at pat y i"
  shows "\<exists>j. occurs_at pat a j"
proof -
  from assms(1) obtain ps ss where a: "a = ps @ y @ ss" by (auto simp add: sublist_def)
  from assms(2) have "occurs_at pat a (length ps + i)"
    by (simp add: occurs_at_def a)
  then show ?thesis ..
qed

lemma search_None_sublist: "sublist y a \<Longrightarrow> search pat a = None \<Longrightarrow> search pat y = None"
  using occurs_at_sublist by (fastforce simp add: search_None)

lemma search_at_head: "starts_with_ci pat s \<Longrightarrow> search pat s = Some 0"
  by (cases s) simp_all

lemma find_xml_start_at:
  "k < length pats \<Longrightarrow> search (pats ! k) s = Some m
     \<Longrightarrow> \<forall>j < k. search (pats ! j) s = None \<Longrightarrow> find_xml_start pats s = Some m"
proof (induction pats arbitrary: k)
  case Nil
  then show ?case by simp
next
  case (Cons p ps)
  show ?case
  proof (cases k)
    case 0
    with Cons.prems show ?thesis by simp
  next
    case (Suc k')
    with Cons.prems have "search p s = None" by auto
    moreover have "find_xml_start ps s = Some m"
    proof (rule Cons.IH [of k'])
      show "k' < length ps" using Cons.prems(1) Suc by simp
      show "search (ps ! k') s = Some m" using Cons.prems(2) Suc by simp
      show "\<forall>j < k'. search (ps ! j) s = None"
      proof (intro allI impI)
        fix j assume "j < k'"
        then have "Suc j < k" using Suc by simp
        with Cons.prems(3) have "search ((p # ps) ! Suc j) s = None" by blast
        then show "search (ps ! j) s = None" by simp
      qed
    qed
    ultimately show ?thesis by simp
  qed
qed

lemma is_space_lower: "is_space c \<Longrightarrow> is_space (lower c)"
proof -
  assume "is_space c"
  then have m: "c \<in> set [CHR 0x09, CHR 0x0A, CHR 0x0B, CHR 0x0C, CHR 0x0D, CHR 0x20, CHR 0xA0]"
    by (simp only: is_space_def)
  have "\<forall>c \<in> set [CHR 0x09, CHR 0x0A, CHR 0x0B, CHR 0x0C, CHR 0x0D, CHR 0x20, CHR 0xA0].
          is_space (lower c)"
    by code_simp
  with m show ?thesis by blast
qed

lemma starts_with_ci_no_space:
  "starts_with_ci pat s \<Longrightarrow> \<forall>ch \<in> set pat. \<not> is_space (lower ch)
     \<Longrightarrow> \<forall>c \<in> set (take (length pat) s). \<not> is_space c"
proof (induction pat s rule: starts_with_ci.induct)
  case (3 p ps c cs)
  then show ?case using is_space_lower [of c] by auto
qed simp_all

lemma starts_with_ci_trim:
  assumes "starts_with_ci pat s" and "pat \<noteq> []" and "\<forall>ch \<in> set pat. \<not> is_space (lower ch)"
  shows "starts_with_ci pat (trim s)"
proof -
  let ?u = "take (length pat) s"
  from assms(1) have len: "length pat \<le> length s" and eq: "map lower ?u = map lower pat"
    by (simp_all add: starts_with_ci_iff)
  from len assms(2) have ne: "?u \<noteq> []" by auto
  from starts_with_ci_no_space [OF assms(1,3)] have ns: "\<forall>c \<in> set ?u. \<not> is_space c" .
  from ne have "hd ?u \<in> set ?u" and "last ?u \<in> set ?u"
    by (rule hd_in_set, rule last_in_set)
  with ns have "\<not> is_space (hd ?u)" and "\<not> is_space (last ?u)"
    by blast+
  with ne have "trim (?u @ drop (length pat) s) = ?u @ rev (dropWhile is_space (rev (drop (length pat) s)))"
    by (rule trim_append_kept)
  then have t: "trim s = ?u @ rev (dropWhile is_space (rev (drop (length pat) s)))"
    by simp
  have "length ?u = length pat" using len by simp
  then have "starts_with_ci pat (?u @ rev (dropWhile is_space (rev (drop (length pat) s))))"
    using eq by (simp add: starts_with_ci_iff)
  with t show ?thesis by simp
qed

lemma lower_lt: "lower c = CHR ''<'' \<longleftrightarrow> c = CHR ''<''"
proof
  assume a: "lower c = CHR ''<''"
  show "c = CHR ''<''"
  proof (cases "map_of (zip ''ABCDEFGHIJKLMNOPQRSTUVWXYZ'' ''abcdefghijklmnopqrstuvwxyz'') c")
    case None
    with a show ?thesis by (simp add: lower_def)
  next
    case (Some l)
    then have "l \<in> set ''abcdefghijklmnopqrstuvwxyz''"
      by (meson map_of_SomeD set_zip_rightD)
    moreover from a Some have "l = CHR ''<''" by (simp add: lower_def)
    ultimately show ?thesis by simp
  qed
next
  assume "c = CHR ''<''"
  then show "lower c = CHR ''<''" by (simp add: lower_def)
qed

lemma not_space_lt: "\<not> is_space CHR ''<''"
  by (simp add: is_space_def)

lemma split_nl_Cons:
  "c \<noteq> CHR 0x0A \<Longrightarrow> \<exists>l ls. split_nl (c # cs) = (c # l) # ls"
  by (cases "split_nl cs") simp_all

lemma is_xml_line_lt: "is_xml_line (CHR ''<'' # l)"
proof -
  have "trim ([CHR ''<''] @ l) = [CHR ''<''] @ rev (dropWhile is_space (rev l))"
    by (rule trim_append_kept) (simp_all add: not_space_lt)
  then show ?thesis by (simp add: is_xml_line_def)
qed

lemma drop_leading_lines_markup:
  "(case s of [] \<Rightarrow> True | c # cs \<Rightarrow> c = CHR ''<'') \<Longrightarrow> drop_leading_lines s = s"
proof (cases s)
  case Nil
  then show ?thesis by (simp add: drop_leading_lines_def is_xml_line_def trim_def)
next
  case (Cons c cs)
  assume "case s of [] \<Rightarrow> True | c # cs \<Rightarrow> c = CHR ''<''"
  with Cons have c: "c = CHR ''<''" by simp
  then have "c \<noteq> CHR 0x0A" by simp
  from split_nl_Cons [OF this, of cs] obtain l ls where "split_nl (c # cs) = (c # l) # ls"
    by blast
  with c Cons show ?thesis
    by (simp add: drop_leading_lines_def is_xml_line_lt)
qed

lemma starts_with_pattern_lt:
  assumes "pat \<in> set xmlStartPatterns" and "starts_with_ci pat s"
  shows "case s of [] \<Rightarrow> True | c # cs \<Rightarrow> c = CHR ''<''"
proof (cases s)
  case Nil
  then show ?thesis by simp
next
  case (Cons c cs)
  from assms(1) obtain ps where "pat = CHR ''<'' # ps"
    by (auto simp add: xmlStartPatterns_def)
  with assms(2) Cons have "lower c = CHR ''<''"
    by (simp add: lower_def)
  with Cons show ?thesis by (simp add: lower_lt)
qed

lemma xmlStartPatterns_no_space:
  "pat \<in> set xmlStartPatterns \<Longrightarrow> pat \<noteq> [] \<and> (\<forall>ch \<in> set pat. \<not> is_space (lower ch))"
proof -
  have "\<forall>pat \<in> set xmlStartPatterns. pat \<noteq> [] \<and> (\<forall>ch \<in> set pat. \<not> is_space (lower ch))"
    by code_simp
  then show "pat \<in> set xmlStartPatterns \<Longrightarrow> pat \<noteq> [] \<and> (\<forall>ch \<in> set pat. \<not> is_space (lower ch))"
    by blast
qed

text \<open>
  Cutting at the opener is stable under the steps that follow it: after the cut, the
  removal of leading lines and the trim, a second cut changes nothing.
\<close>

lemma cut_to_xml_start_twice:
  "cut_to_xml_start (trim (drop_leading_lines (cut_to_xml_start a)))
     = trim (drop_leading_lines (cut_to_xml_start a))"
proof (cases "find_xml_start xmlStartPatterns a")
  case None
  let ?y = "trim (drop_leading_lines a)"
  have "sublist ?y (drop_leading_lines a)" by (rule sublist_trim)
  also have "sublist (drop_leading_lines a) a" by (simp add: suffix_drop_leading_lines)
  finally have sub: "sublist ?y a" .
  from None have "\<forall>pat \<in> set xmlStartPatterns. search pat a = None"
    by (simp add: find_xml_start_None)
  with sub have "\<forall>pat \<in> set xmlStartPatterns. search pat ?y = None"
    by (blast intro: search_None_sublist)
  then have "find_xml_start xmlStartPatterns ?y = None"
    by (simp add: find_xml_start_None)
  with None show ?thesis by (simp add: cut_to_xml_start_def)
next
  case (Some i)
  let ?c = "drop i a"
  let ?y = "trim ?c"
  from find_xml_start_Some [OF Some] obtain k where k: "k < length xmlStartPatterns"
      "search (xmlStartPatterns ! k) a = Some i"
      "\<forall>j < k. search (xmlStartPatterns ! j) a = None"
    by blast
  let ?p = "xmlStartPatterns ! k"
  from k(1) have mem: "?p \<in> set xmlStartPatterns" by simp
  from k(2) have sw: "starts_with_ci ?p ?c"
    by (simp add: search_Some occurs_at_starts_with)
  from starts_with_pattern_lt [OF mem sw] have "drop_leading_lines ?c = ?c"
    by (rule drop_leading_lines_markup)
  with Some have y: "trim (drop_leading_lines (cut_to_xml_start a)) = ?y"
    by (simp add: cut_to_xml_start_def)
  from xmlStartPatterns_no_space [OF mem] sw have "starts_with_ci ?p ?y"
    by (simp add: starts_with_ci_trim)
  then have at: "search ?p ?y = Some 0" by (rule search_at_head)
  have "sublist ?y ?c" by (rule sublist_trim)
  also have "sublist ?c a" by simp
  finally have sub: "sublist ?y a" .
  with k(3) have "\<forall>j < k. search (xmlStartPatterns ! j) ?y = None"
    by (blast intro: search_None_sublist)
  with k(1) at have "find_xml_start xmlStartPatterns ?y = Some 0"
    by (rule find_xml_start_at)
  then have "cut_to_xml_start ?y = ?y" by (simp add: cut_to_xml_start_def)
  with y show ?thesis by simp
qed

text \<open>
  C3, as amended. The sanitizer is not idempotent on every input. What holds: when the
  sanitized text is empty or begins with \<open><\<close>, and none of the four browser messages
  occurs in it, sanitizing it again returns it unchanged.
\<close>

theorem sanitize_idempotent_on_clean_markup:
  assumes "\<forall>pat \<in> set browser_messages. \<forall>i. \<not> occurs_at pat (cleanXmlContent x) i"
    and "case cleanXmlContent x of [] \<Rightarrow> True | c # cs \<Rightarrow> c = CHR ''<''"
  shows "cleanXmlContent (cleanXmlContent x) = cleanXmlContent x"
proof -
  let ?y = "cleanXmlContent x"
  from assms(1) have "remove_messages ?y = ?y"
    by (simp add: remove_messages_absent search_None)
  moreover have t: "trim ?y = ?y"
    by (simp add: cleanXmlContent_def trim_trim)
  moreover have "cut_to_xml_start ?y = ?y"
    by (simp add: cleanXmlContent_def cut_to_xml_start_twice)
  moreover from assms(2) have "drop_leading_lines ?y = ?y"
    by (rule drop_leading_lines_markup)
  ultimately have "trim (drop_leading_lines (cut_to_xml_start (trim (remove_messages ?y)))) = ?y"
    by simp
  then show ?thesis by (simp add: cleanXmlContent_def [of "cleanXmlContent x"])
qed

text \<open>The amended C3 at a sitemap pasted with a browser message before it.\<close>

theorem sanitize_idempotent_on_clean_markup_witness:
  "cleanXmlContent (''  The document tree is shown below.'' @ [CHR 0x0A] @ ''<urlset>'' @ [CHR 0x0A] @ ''</urlset> '')
     = ''<urlset>'' @ [CHR 0x0A] @ ''</urlset>''
   \<and> cleanXmlContent (''<urlset>'' @ [CHR 0x0A] @ ''</urlset>'') = ''<urlset>'' @ [CHR 0x0A] @ ''</urlset>''"
proof -
  let ?x = "''  The document tree is shown below.'' @ [CHR 0x0A] @ ''<urlset>'' @ [CHR 0x0A] @ ''</urlset> ''"
  have y: "cleanXmlContent ?x = ''<urlset>'' @ [CHR 0x0A] @ ''</urlset>''"
    by code_simp
  have "\<forall>pat \<in> set browser_messages. search pat (''<urlset>'' @ [CHR 0x0A] @ ''</urlset>'') = None"
    by code_simp
  then have a: "\<forall>pat \<in> set browser_messages. \<forall>i. \<not> occurs_at pat (cleanXmlContent ?x) i"
    by (simp only: y search_None)
  have b: "case cleanXmlContent ?x of [] \<Rightarrow> True | c # cs \<Rightarrow> c = CHR ''<''"
    by (simp only: y) simp
  from sanitize_idempotent_on_clean_markup [OF a b] y show ?thesis
    by simp
qed

text \<open>
  C3 as written fails on a text of four lines: a note, a blank line, another note and
  a line of markup. The first pass stops at the blank line and, after the trim, returns
  the second note and the markup; the second pass removes the note as well.
\<close>

theorem sanitize_idempotent_counterexample:
  "cleanXmlContent (''note'' @ [CHR 0x0A, CHR 0x0A] @ ''see below'' @ [CHR 0x0A] @ ''<root/>'')
     = ''see below'' @ [CHR 0x0A] @ ''<root/>''
   \<and> cleanXmlContent (cleanXmlContent
        (''note'' @ [CHR 0x0A, CHR 0x0A] @ ''see below'' @ [CHR 0x0A] @ ''<root/>'')) = ''<root/>''"
  by code_simp

text \<open>
  The messages are removed one after the other, each in one sweep, so a message that
  only comes together when another occurrence is cut out of its middle is left in the
  result, and a second pass removes it.
\<close>

lemma sanitize_message_reassembled:
  "cleanXmlContent ''<a>The document The document tree is shown below.tree is shown below.</a>''
     = ''<a>The document tree is shown below.</a>''
   \<and> cleanXmlContent ''<a>The document tree is shown below.</a>'' = ''<a></a>''"
  by code_simp

section \<open>Properties of the extractor\<close>

text \<open>
  Both loops append, for each element that has a location, the entry built from it, and
  nothing for the others.
\<close>

lemma push_url_cases:
  "push_url urls u = (if has_location u then urls @ [url_entry (the (query_text ''loc'' u)) u] else urls)"
  by (simp add: push_url_def has_location_def split: option.splits)

lemma push_sitemap_cases:
  "push_sitemap urls u = (if has_location u then urls @ [sitemap_entry (the (query_text ''loc'' u)) u] else urls)"
  by (simp add: push_sitemap_def has_location_def split: option.splits)

lemma foldl_push_url:
  "foldl push_url acc us = acc @ map (\<lambda>u. url_entry (the (query_text ''loc'' u)) u) (filter has_location us)"
  by (induction us arbitrary: acc) (simp_all add: push_url_cases)

lemma foldl_push_sitemap:
  "foldl push_sitemap acc us = acc @ map (\<lambda>u. sitemap_entry (the (query_text ''loc'' u)) u) (filter has_location us)"
  by (induction us arbitrary: acc) (simp_all add: push_sitemap_cases)

lemma url_entry_url: "url (url_entry loc u) = loc"
  by (simp add: url_entry_def Let_def)

lemma has_location_the: "has_location u \<Longrightarrow> the (query_text ''loc'' u) \<noteq> []"
  by (auto simp add: has_location_def split: option.splits)

lemma has_location_Some: "has_location u \<Longrightarrow> Some (the (query_text ''loc'' u)) = query_text ''loc'' u"
  by (auto simp add: has_location_def split: option.splits)

text \<open>
  C1, as amended. In the claim as written, every \<open>url\<close> element that contains a
  \<open>loc\<close> child gives a record whose url is the text of that child. The code asks
  \<open>querySelector("loc")\<close>, which returns the first \<open>loc\<close> element at any depth below the
  \<open>url\<close> element, and keeps the element only when the text of that \<open>loc\<close> is not
  empty. What holds: in a document that the parser did not flag (no \<open>parsererror\<close>
  element) and that has N \<ge> 1 \<open>url\<close> elements, each with a first \<open>loc\<close> descendant of
  non-empty text, the result has exactly N records, in the document order of the
  \<open>url\<close> elements, and the url of the i-th record is the text of the first \<open>loc\<close>
  descendant of the i-th \<open>url\<close> element.
\<close>

theorem extract_one_record_per_located_url:
  assumes "querySelector [''parsererror''] doc = None"
    and "querySelectorAll [''url''] doc \<noteq> []"
    and "\<forall>u \<in> set (querySelectorAll [''url''] doc). has_location u"
  shows "\<exists>rs. extractEntries doc = Inr rs
           \<and> length rs = length (querySelectorAll [''url''] doc)
           \<and> (\<forall>i < length rs. query_text ''loc'' (querySelectorAll [''url''] doc ! i) = Some (url (rs ! i)))"
proof -
  let ?us = "querySelectorAll [''url''] doc"
  let ?rs = "map (\<lambda>u. url_entry (the (query_text ''loc'' u)) u) ?us"
  from assms(3) have f: "filter has_location ?us = ?us" by simp
  have up: "url_pass doc = ?rs" by (simp add: url_pass_def foldl_push_url f)
  with assms(2) have ne: "url_pass doc \<noteq> []" by simp
  have "extractEntries doc = Inr ?rs" using assms(1) ne up by (simp add: extractEntries_def Let_def)
  moreover have "\<forall>i < length ?rs. query_text ''loc'' (?us ! i) = Some (url (?rs ! i))"
    using assms(3) by (simp add: url_entry_url has_location_Some)
  ultimately show ?thesis by simp
qed

text \<open>The amended C1 at a sitemap of two entries.\<close>

theorem extract_one_record_per_located_url_witness:
  "\<exists>rs. extractEntries
          [Element ''urlset'' []
            [Element ''url'' [] [Element ''loc'' [] [Text ''https://a.com/'']],
             Element ''url'' [] [Element ''loc'' [] [Text ''https://a.com/b'']]]] = Inr rs
      \<and> length rs = 2
      \<and> url (rs ! 0) = ''https://a.com/''
      \<and> url (rs ! 1) = ''https://a.com/b''"
proof -
  let ?u1 = "Element ''url'' [] [Element ''loc'' [] [Text ''https://a.com/'']]"
  let ?u2 = "Element ''url'' [] [Element ''loc'' [] [Text ''https://a.com/b'']]"
  let ?doc = "[Element ''urlset'' [] [?u1, ?u2]]"
  have us: "querySelectorAll [''url''] ?doc = [?u1, ?u2]"
    by (simp add: querySelectorAll_def)
  have pe: "querySelector [''parsererror''] ?doc = None"
    by (simp add: querySelector_def querySelectorAll_def)
  have t1: "query_text ''loc'' ?u1 = Some ''https://a.com/''"
    by (simp add: query_text_def querySelector_def querySelectorAll_def)
  have t2: "query_text ''loc'' ?u2 = Some ''https://a.com/b''"
    by (simp add: query_text_def querySelector_def querySelectorAll_def)
  have ne: "querySelectorAll [''url''] ?doc \<noteq> []"
    by (simp add: us)
  have loc: "\<forall>u \<in> set (querySelectorAll [''url''] ?doc). has_location u"
    by (simp add: us has_location_def t1 t2)
  from extract_one_record_per_located_url [OF pe ne loc]
  obtain rs where rs: "extractEntries ?doc = Inr rs" "length rs = 2"
      "\<forall>i < length rs. query_text ''loc'' ([?u1, ?u2] ! i) = Some (url (rs ! i))"
    by (auto simp add: us)
  have "0 < length rs" and "1 < length rs"
    using rs(2) by simp_all
  with rs(3) have "query_text ''loc'' ([?u1, ?u2] ! 0) = Some (url (rs ! 0))"
    and "query_text ''loc'' ([?u1, ?u2] ! 1) = Some (url (rs ! 1))"
    by blast+
  then have "url (rs ! 0) = ''https://a.com/''" and "url (rs ! 1) = ''https://a.com/b''"
    by (simp_all add: t1 t2)
  with rs(1,2) show ?thesis by blast
qed

text \<open>
  C1 as written fails on a sitemap with two \<open>url\<close> elements that both contain a \<open>loc\<close>
  child: the first \<open>loc\<close> is empty, and in the second entry an image block with its
  own \<open>loc\<close> comes before the \<open>loc\<close> child. The claim promises two records, the second
  with the url \<open>https://a.com/p\<close>; the code returns one record, with the url of the
  image.
\<close>

theorem extract_one_record_per_url_counterexample:
  "map (\<lambda>u. filter (matches [''loc'']) (childNodes u))
     (querySelectorAll [''url'']
        [Element ''urlset'' []
          [Element ''url'' [] [Element ''loc'' [] []],
           Element ''url'' []
             [Element ''image'' [] [Element ''loc'' [] [Text ''https://a.com/i.png'']],
              Element ''loc'' [] [Text ''https://a.com/p'']]]])
     = [[Element ''loc'' [] []], [Element ''loc'' [] [Text ''https://a.com/p'']]]
   \<and> extractEntries
        [Element ''urlset'' []
          [Element ''url'' [] [Element ''loc'' [] []],
           Element ''url'' []
             [Element ''image'' [] [Element ''loc'' [] [Text ''https://a.com/i.png'']],
              Element ''loc'' [] [Text ''https://a.com/p'']]]]
      = Inr [\<lparr>url = ''https://a.com/i.png'', lastModified = Some [], changeFrequency = Some [],
              priority = Some [], alternates = None\<rparr>]"
  by (simp add: extractEntries_def url_pass_def push_url_def url_entry_def query_text_def
      querySelector_def querySelectorAll_def or_empty_def)

text \<open>
  C4, as amended. In the claim as written this holds for every well-formed document.
  The code first asks the document for a \<open>parsererror\<close> element and fails with
  InvalidXml when there is one, also in a well-formed document. What holds: in a
  document without any \<open>parsererror\<close> element, in which the pass over the \<open>url\<close>
  elements gives no record and at least one \<open>sitemap\<close> element has a location (a first
  \<open>loc\<close> descendant of non-empty text), the result has one record per such \<open>sitemap\<close>
  element, in document order, with the location as url, the text of \<open>lastmod\<close> or the
  empty string as lastModified, the literal \<open>Sitemap Index\<close> as changeFrequency, the
  empty string as priority, and no alternates.
\<close>

theorem sitemap_index_records:
  assumes "querySelector [''parsererror''] doc = None"
    and "url_pass doc = []"
    and "sms = filter has_location (querySelectorAll [''sitemap''] doc)"
    and "sms \<noteq> []"
  shows "\<exists>rs. extractEntries doc = Inr rs
           \<and> length rs = length sms
           \<and> (\<forall>i < length rs.
                 query_text ''loc'' (sms ! i) = Some (url (rs ! i))
               \<and> lastModified (rs ! i) = Some (or_empty (query_text ''lastmod'' (sms ! i)))
               \<and> changeFrequency (rs ! i) = Some ''Sitemap Index''
               \<and> priority (rs ! i) = Some []
               \<and> alternates (rs ! i) = None)"
proof -
  let ?rs = "map (\<lambda>u. sitemap_entry (the (query_text ''loc'' u)) u) sms"
  have hl: "\<forall>u \<in> set sms. has_location u" using assms(3) by simp
  have "extractEntries doc = Inr ?rs"
    using assms by (simp add: extractEntries_def Let_def foldl_push_sitemap)
  moreover have "\<forall>i < length ?rs.
                 query_text ''loc'' (sms ! i) = Some (url (?rs ! i))
               \<and> lastModified (?rs ! i) = Some (or_empty (query_text ''lastmod'' (sms ! i)))
               \<and> changeFrequency (?rs ! i) = Some ''Sitemap Index''
               \<and> priority (?rs ! i) = Some []
               \<and> alternates (?rs ! i) = None"
    using hl by (simp add: sitemap_entry_def has_location_Some)
  ultimately show ?thesis by simp
qed


text \<open>The amended C4 at a sitemap index of two sitemaps.\<close>

theorem sitemap_index_records_witness:
  "\<exists>rs. extractEntries
          [Element ''sitemapindex'' []
            [Element ''sitemap'' []
               [Element ''loc'' [] [Text ''https://a.com/s1.xml''],
                Element ''lastmod'' [] [Text ''2024-01-01'']],
             Element ''sitemap'' [] [Element ''loc'' [] [Text ''https://a.com/s2.xml'']]]] = Inr rs
      \<and> length rs = 2
      \<and> url (rs ! 1) = ''https://a.com/s2.xml''
      \<and> lastModified (rs ! 1) = Some []
      \<and> changeFrequency (rs ! 1) = Some ''Sitemap Index''
      \<and> priority (rs ! 1) = Some []"
proof -
  let ?s1 = "Element ''sitemap'' []
               [Element ''loc'' [] [Text ''https://a.com/s1.xml''],
                Element ''lastmod'' [] [Text ''2024-01-01'']]"
  let ?s2 = "Element ''sitemap'' [] [Element ''loc'' [] [Text ''https://a.com/s2.xml'']]"
  let ?doc = "[Element ''sitemapindex'' [] [?s1, ?s2]]"
  have pe: "querySelector [''parsererror''] ?doc = None"
    by (simp add: querySelector_def querySelectorAll_def)
  have up: "url_pass ?doc = []"
    by (simp add: url_pass_def querySelectorAll_def)
  have t1: "query_text ''loc'' ?s1 = Some ''https://a.com/s1.xml''"
    by (simp add: query_text_def querySelector_def querySelectorAll_def)
  have t2: "query_text ''loc'' ?s2 = Some ''https://a.com/s2.xml''"
    by (simp add: query_text_def querySelector_def querySelectorAll_def)
  have lm: "query_text ''lastmod'' ?s2 = None"
    by (simp add: query_text_def querySelector_def querySelectorAll_def)
  have sms: "[?s1, ?s2] = filter has_location (querySelectorAll [''sitemap''] ?doc)"
    by (simp add: querySelectorAll_def has_location_def t1 t2)
  have ne: "[?s1, ?s2] \<noteq> []"
    by simp
  from sitemap_index_records [OF pe up sms ne]
  obtain rs where rs: "extractEntries ?doc = Inr rs" "length rs = 2"
      "\<forall>i < length rs.
         query_text ''loc'' ([?s1, ?s2] ! i) = Some (url (rs ! i))
       \<and> lastModified (rs ! i) = Some (or_empty (query_text ''lastmod'' ([?s1, ?s2] ! i)))
       \<and> changeFrequency (rs ! i) = Some ''Sitemap Index''
       \<and> priority (rs ! i) = Some []
       \<and> alternates (rs ! i) = None"
    by auto
  have "1 < length rs"
    using rs(2) by simp
  with rs(3) have
    "query_text ''loc'' ([?s1, ?s2] ! 1) = Some (url (rs ! 1))
       \<and> lastModified (rs ! 1) = Some (or_empty (query_text ''lastmod'' ([?s1, ?s2] ! 1)))
       \<and> changeFrequency (rs ! 1) = Some ''Sitemap Index''
       \<and> priority (rs ! 1) = Some []"
    by blast
  then have "url (rs ! 1) = ''https://a.com/s2.xml'' \<and> lastModified (rs ! 1) = Some []
       \<and> changeFrequency (rs ! 1) = Some ''Sitemap Index'' \<and> priority (rs ! 1) = Some []"
    by (simp add: t2 lm or_empty_def)
  with rs(1,2) show ?thesis by blast
qed

text \<open>
  C4 as written fails on a well-formed sitemap index that holds an empty element named
  \<open>parsererror\<close> beside its one \<open>sitemap\<close> element: the pass over the \<open>url\<close> elements
  gives no record, the \<open>sitemap\<close> element has a location, and the code fails with
  InvalidXml where the claim promises one record.
\<close>

theorem sitemap_index_parsererror_counterexample:
  "url_pass
     [Element ''sitemapindex'' []
       [Element ''parsererror'' [] [],
        Element ''sitemap'' [] [Element ''loc'' [] [Text ''https://a.com/s1.xml'']]]] = []
   \<and> filter has_location
        (querySelectorAll [''sitemap'']
          [Element ''sitemapindex'' []
            [Element ''parsererror'' [] [],
             Element ''sitemap'' [] [Element ''loc'' [] [Text ''https://a.com/s1.xml'']]]])
      = [Element ''sitemap'' [] [Element ''loc'' [] [Text ''https://a.com/s1.xml'']]]
   \<and> extractEntries
        [Element ''sitemapindex'' []
          [Element ''parsererror'' [] [],
           Element ''sitemap'' [] [Element ''loc'' [] [Text ''https://a.com/s1.xml'']]]]
      = Inl InvalidXml"
  by (simp add: extractEntries_def url_pass_def has_location_def query_text_def
      querySelector_def querySelectorAll_def)

text \<open>
  C6, as amended. In the claim as written a text that parses and gives no record in
  either pass fails with NoUrlsFound. The code tells a failed parse by a \<open>parsererror\<close>
  element in the document, so a well-formed text that holds an element of that name
  fails with InvalidXml as well. What holds: whatever the parser returns for a text,
  the result is never a success with no record. When the returned document holds a
  \<open>parsererror\<close> element the result is the error InvalidXml; when it holds none and
  neither the pass over the \<open>url\<close> elements nor the pass over the \<open>sitemap\<close> elements
  gives a record, the result is the error NoUrlsFound. The two passes give no record
  exactly when no \<open>url\<close> element and no \<open>sitemap\<close> element has a location.
\<close>

theorem extract_never_empty:
  "extractEntries (parseFromString text) \<noteq> Inr []
   \<and> (querySelector [''parsererror''] (parseFromString text) \<noteq> None
        \<longrightarrow> extractEntries (parseFromString text) = Inl InvalidXml)
   \<and> (querySelector [''parsererror''] (parseFromString text) = None
        \<and> url_pass (parseFromString text) = []
        \<and> foldl push_sitemap [] (querySelectorAll [''sitemap''] (parseFromString text)) = []
        \<longrightarrow> extractEntries (parseFromString text) = Inl NoUrlsFound)
   \<and> (url_pass (parseFromString text) = []
        \<and> foldl push_sitemap [] (querySelectorAll [''sitemap''] (parseFromString text)) = []
      \<longleftrightarrow> filter has_location (querySelectorAll [''url''] (parseFromString text)) = []
        \<and> filter has_location (querySelectorAll [''sitemap''] (parseFromString text)) = [])"
proof -
  let ?doc = "parseFromString text"
  have never: "extractEntries ?doc \<noteq> Inr []"
    by (simp add: extractEntries_def Let_def)
  have invalid: "querySelector [''parsererror''] ?doc \<noteq> None
        \<longrightarrow> extractEntries ?doc = Inl InvalidXml"
    by (simp add: extractEntries_def)
  have neither: "querySelector [''parsererror''] ?doc = None
        \<and> url_pass ?doc = []
        \<and> foldl push_sitemap [] (querySelectorAll [''sitemap''] ?doc) = []
        \<longrightarrow> extractEntries ?doc = Inl NoUrlsFound"
    by (simp add: extractEntries_def Let_def)
  have passes: "url_pass ?doc = []
        \<and> foldl push_sitemap [] (querySelectorAll [''sitemap''] ?doc) = []
      \<longleftrightarrow> filter has_location (querySelectorAll [''url''] ?doc) = []
        \<and> filter has_location (querySelectorAll [''sitemap''] ?doc) = []"
    by (simp add: url_pass_def foldl_push_url foldl_push_sitemap)
  from never invalid neither passes show ?thesis
    by blast
qed

text \<open>
  The amended C6 at a parser that reports an error, and at one that returns an empty feed.
\<close>

theorem extract_never_empty_witness:
  "extractEntries ((\<lambda>t. [Element ''parsererror'' [] [Text ''error on line 1'']]) ''<urlset'')
     = Inl InvalidXml
   \<and> extractEntries ((\<lambda>t. [Element ''rss'' [] [Element ''channel'' [] []]]) ''<rss><channel/></rss>'')
     = Inl NoUrlsFound"
proof -
  have a: "querySelector [''parsererror'']
             ((\<lambda>t. [Element ''parsererror'' [] [Text ''error on line 1'']]) ''<urlset'') \<noteq> None"
    by (simp add: querySelector_def querySelectorAll_def)
  have b: "querySelector [''parsererror'']
             ((\<lambda>t. [Element ''rss'' [] [Element ''channel'' [] []]]) ''<rss><channel/></rss>'') = None
         \<and> url_pass ((\<lambda>t. [Element ''rss'' [] [Element ''channel'' [] []]]) ''<rss><channel/></rss>'') = []
         \<and> foldl push_sitemap [] (querySelectorAll [''sitemap'']
             ((\<lambda>t. [Element ''rss'' [] [Element ''channel'' [] []]]) ''<rss><channel/></rss>'')) = []"
    by (simp add: querySelector_def querySelectorAll_def url_pass_def)
  show ?thesis
    using extract_never_empty
            [of "\<lambda>t. [Element ''parsererror'' [] [Text ''error on line 1'']]" "''<urlset''"]
          extract_never_empty
            [of "\<lambda>t. [Element ''rss'' [] [Element ''channel'' [] []]]" "''<rss><channel/></rss>''"]
          a b
    by blast
qed

text \<open>
  C6 as written fails on the well-formed text \<open><parsererror/>\<close>, whose document is
  one empty element: the text parses, neither pass gives a record, and the code fails
  with InvalidXml where the claim has NoUrlsFound.
\<close>

theorem extract_parsererror_element_counterexample:
  "url_pass [Element ''parsererror'' [] []] = []
   \<and> foldl push_sitemap [] (querySelectorAll [''sitemap''] [Element ''parsererror'' [] []]) = []
   \<and> extractEntries [Element ''parsererror'' [] []] = Inl InvalidXml
   \<and> extractEntries [Element ''parsererror'' [] []] \<noteq> Inl NoUrlsFound"
  by (simp add: extractEntries_def url_pass_def querySelector_def querySelectorAll_def)

text \<open>
  The same holds for the whole operation, whichever tab is active and whatever the
  parser is: it returns early, or fails, or succeeds with at least one record.
\<close>

lemma parseSitemap_never_empty:
  "parseSitemap parseFromString file xmlContent activeTab \<noteq> Some (Inr [])"
  by (simp add: parseSitemap_def extractEntries_def Let_def split: option.splits)

text \<open>
  C7. Every record of a successful result has a url that is not the empty string.
\<close>

theorem extract_urls_nonempty:
  assumes "extractEntries doc = Inr rs" and "e \<in> set rs"
  shows "url e \<noteq> []"
proof -
  from assms(1) have
    "rs = url_pass doc \<or> rs = foldl push_sitemap [] (querySelectorAll [''sitemap''] doc)"
    by (auto simp add: extractEntries_def Let_def split: if_splits)
  with assms(2) show ?thesis 
    by (auto simp add: url_pass_def foldl_push_url foldl_push_sitemap url_entry_url sitemap_entry_def has_location_the)
qed

text \<open>C7 at a sitemap of one entry.\<close>

theorem extract_urls_nonempty_witness:
  "extractEntries [Element ''urlset'' [] [Element ''url'' [] [Element ''loc'' [] [Text ''https://a.com/'']]]]
     = Inr [\<lparr>url = ''https://a.com/'', lastModified = Some [], changeFrequency = Some [],
             priority = Some [], alternates = None\<rparr>]
   \<and> url \<lparr>url = ''https://a.com/'', lastModified = Some [], changeFrequency = Some [],
           priority = Some [], alternates = None\<rparr> \<noteq> []"
proof -
  have r: "extractEntries [Element ''urlset'' [] [Element ''url'' [] [Element ''loc'' [] [Text ''https://a.com/'']]]]
     = Inr [\<lparr>url = ''https://a.com/'', lastModified = Some [], changeFrequency = Some [],
             priority = Some [], alternates = None\<rparr>]"
    by (simp add: extractEntries_def url_pass_def push_url_def url_entry_def query_text_def
        querySelector_def querySelectorAll_def or_empty_def)
  have m: "\<lparr>url = ''https://a.com/'', lastModified = Some [], changeFrequency = Some [],
             priority = Some [], alternates = None\<rparr>
           \<in> set [\<lparr>url = ''https://a.com/'', lastModified = Some [], changeFrequency = Some [],
             priority = Some [], alternates = None\<rparr>]"
    by simp
  from extract_urls_nonempty [OF r m] r show ?thesis by blast
qed

text \<open>
  C8, as amended. In the claim as written a \<open>url\<close> element without a \<open>loc\<close> child gives
  no record. The code looks for \<open>loc\<close> at any depth below the \<open>url\<close> element, so what
  holds is: a \<open>url\<close> element without any \<open>loc\<close> descendant is skipped. It leaves the
  list of records as it was, and the pass over a list of \<open>url\<close> elements gives the same
  records with that element as without it.
\<close>

theorem url_without_loc_skipped:
  assumes "querySelector [''loc''] (childNodes u) = None"
  shows "push_url urls u = urls
       \<and> foldl push_url acc (us @ u # vs) = foldl push_url acc (us @ vs)
       \<and> (querySelectorAll [''url''] doc = us @ u # vs
            \<longrightarrow> url_pass doc = foldl push_url [] (us @ vs))"
proof -
  from assms have "\<not> has_location u"
    by (simp add: has_location_def query_text_def)
  then show ?thesis
    by (simp add: push_url_cases foldl_push_url url_pass_def)
qed

text \<open>The amended C8 at an entry that has a date and no location.\<close>

theorem url_without_loc_skipped_witness:
  "push_url [] (Element ''url'' [] [Element ''lastmod'' [] [Text ''2024-01-01'']]) = []
   \<and> url_pass [Element ''urlset'' [] [Element ''url'' [] [Element ''lastmod'' [] [Text ''2024-01-01'']]]] = []"
proof -
  have q: "querySelector [''loc''] (childNodes (Element ''url'' [] [Element ''lastmod'' [] [Text ''2024-01-01'']])) = None"
    by (simp add: querySelector_def querySelectorAll_def)
  have l: "querySelectorAll [''url''] [Element ''urlset'' [] [Element ''url'' [] [Element ''lastmod'' [] [Text ''2024-01-01'']]]]
      = [] @ Element ''url'' [] [Element ''lastmod'' [] [Text ''2024-01-01'']] # []"
    by (simp add: querySelectorAll_def)
  show ?thesis
    using url_without_loc_skipped [OF q, of "[]" "[]" "[]" "[]"
        "[Element ''urlset'' [] [Element ''url'' [] [Element ''lastmod'' [] [Text ''2024-01-01'']]]]"] l
    by simp
qed

text \<open>
  C8 as written fails on an entry whose only child is an image block: the \<open>url\<close> element
  has no \<open>loc\<close> child, and the \<open>loc\<close> of the image becomes the url of a record.
\<close>

theorem url_without_loc_child_counterexample:
  "filter (matches [''loc''])
     (childNodes (Element ''url'' [] [Element ''image'' [] [Element ''loc'' [] [Text ''https://a.com/i.png'']]])) = []
   \<and> querySelectorAll [''url'']
        [Element ''urlset'' [] [Element ''url'' [] [Element ''image'' [] [Element ''loc'' [] [Text ''https://a.com/i.png'']]]]]
      = [Element ''url'' [] [Element ''image'' [] [Element ''loc'' [] [Text ''https://a.com/i.png'']]]]
   \<and> extractEntries
        [Element ''urlset'' [] [Element ''url'' [] [Element ''image'' [] [Element ''loc'' [] [Text ''https://a.com/i.png'']]]]]
      = Inr [\<lparr>url = ''https://a.com/i.png'', lastModified = Some [], changeFrequency = Some [],
              priority = Some [], alternates = None\<rparr>]"
  by (simp add: extractEntries_def url_pass_def push_url_def url_entry_def query_text_def
      querySelector_def querySelectorAll_def or_empty_def)

text \<open>
  C10, as amended. In the claim as written this holds for every \<open>url\<close> element that
  contains a \<open>loc\<close> child. The code builds a record, and with it the alternates
  string, only for a \<open>url\<close> element whose first \<open>loc\<close> descendant has non-empty text.
  What holds: let the alternate links found below such a \<open>url\<close> element be \<open>as\<close>, then
  \<open>a\<close>, then \<open>bs\<close>. The element adds exactly one record, and the alternates of that
  record are the pairs of all the links joined by \<open>; \<close>, the pair of \<open>a\<close> in its place.
  A missing \<open>hreflang\<close> makes that pair start with \<open>null: \<close>, a missing \<open>href\<close> makes
  it end with \<open>: null\<close>; the link is neither skipped nor an error.
\<close>

theorem alternates_null_for_missing_attribute:
  assumes "querySelectorAll [''xhtml:link'', ''link''] (childNodes u) = as @ a # bs"
    and "query_text ''loc'' u = Some loc"
    and "loc \<noteq> []"
  shows "push_url urls u = urls @ [url_entry loc u]
       \<and> url (last (push_url urls u)) = loc
       \<and> alternates (last (push_url urls u))
           = Some (join ''; '' (map alternate_pair as @ alternate_pair a # map alternate_pair bs))
       \<and> (getAttribute a ''hreflang'' = None
            \<longrightarrow> alternate_pair a = ''null: '' @ to_str (getAttribute a ''href''))
       \<and> (getAttribute a ''href'' = None
            \<longrightarrow> alternate_pair a = to_str (getAttribute a ''hreflang'') @ '': null'')"
proof -
  from assms(2,3) have pushed: "push_url urls u = urls @ [url_entry loc u]"
    by (simp add: push_url_def)
  have "alternates (url_entry loc u)
          = Some (join ''; '' (map alternate_pair as @ alternate_pair a # map alternate_pair bs))"
    using assms(1) by (simp add: url_entry_def Let_def alternateUrls_def)
  with pushed have alts: "alternates (last (push_url urls u))
          = Some (join ''; '' (map alternate_pair as @ alternate_pair a # map alternate_pair bs))"
    by simp
  from pushed have loc: "url (last (push_url urls u)) = loc"
    by (simp add: url_entry_url)
  have lang: "getAttribute a ''hreflang'' = None
            \<longrightarrow> alternate_pair a = ''null: '' @ to_str (getAttribute a ''href'')"
    by (simp add: alternate_pair_def to_str_def)
  have href: "getAttribute a ''href'' = None
            \<longrightarrow> alternate_pair a = to_str (getAttribute a ''hreflang'') @ '': null''"
    by (simp add: alternate_pair_def to_str_def)
  from pushed loc alts lang href show ?thesis
    by blast
qed

text \<open>
  The amended C10 at an entry with one complete link and one link without either
  attribute.
\<close>

theorem alternates_null_for_missing_attribute_witness:
  "alternates (last (push_url [] (Element ''url'' [] [Element ''loc'' [] [Text ''https://x/''],
       Element ''link'' [(''hreflang'', ''en''), (''href'', ''https://x/en'')] [],
       Element ''link'' [(''rel'', ''alternate'')] []])))
     = Some ''en: https://x/en; null: null''
   \<and> url (last (push_url [] (Element ''url'' [] [Element ''loc'' [] [Text ''https://x/''],
       Element ''link'' [(''hreflang'', ''en''), (''href'', ''https://x/en'')] [],
       Element ''link'' [(''rel'', ''alternate'')] []]))) = ''https://x/''"
proof -
  let ?u = "Element ''url'' [] [Element ''loc'' [] [Text ''https://x/''],
       Element ''link'' [(''hreflang'', ''en''), (''href'', ''https://x/en'')] [],
       Element ''link'' [(''rel'', ''alternate'')] []]"
  have q: "querySelectorAll [''xhtml:link'', ''link''] (childNodes ?u)
      = [Element ''link'' [(''hreflang'', ''en''), (''href'', ''https://x/en'')] []]
        @ Element ''link'' [(''rel'', ''alternate'')] [] # []"
    by (simp add: querySelectorAll_def)
  have l: "query_text ''loc'' ?u = Some ''https://x/''"
    by (simp add: query_text_def querySelector_def querySelectorAll_def)
  have n: "''https://x/'' \<noteq> []"
    by simp
  have h: "getAttribute (Element ''link'' [(''rel'', ''alternate'')] []) ''hreflang'' = None"
    and r: "getAttribute (Element ''link'' [(''rel'', ''alternate'')] []) ''href'' = None"
    by simp_all
  from alternates_null_for_missing_attribute [OF q l n, of "[]"] h r
  have "alternates (last (push_url [] ?u))
          = Some (join ''; ''
              (map alternate_pair [Element ''link'' [(''hreflang'', ''en''), (''href'', ''https://x/en'')] []]
               @ alternate_pair (Element ''link'' [(''rel'', ''alternate'')] []) # map alternate_pair []))"
    and "url (last (push_url [] ?u)) = ''https://x/''"
    and "alternate_pair (Element ''link'' [(''rel'', ''alternate'')] [])
          = ''null: '' @ to_str (getAttribute (Element ''link'' [(''rel'', ''alternate'')] []) ''href'')"
    by blast+
  then show ?thesis
    by (simp add: alternate_pair_def to_str_def)
qed

text \<open>
  C10 as written fails on a \<open>url\<close> element that contains an empty \<open>loc\<close> child and a
  link without attributes: the element has a \<open>loc\<close> child and an alternate link, and
  the code skips the element, so there is no record and no alternates string for the
  link to contribute to.
\<close>

theorem alternates_empty_loc_counterexample:
  "filter (matches [''loc''])
     (childNodes (Element ''url'' []
        [Element ''loc'' [] [], Element ''link'' [(''rel'', ''alternate'')] []]))
     = [Element ''loc'' [] []]
   \<and> querySelectorAll [''xhtml:link'', ''link'']
        (childNodes (Element ''url'' []
           [Element ''loc'' [] [], Element ''link'' [(''rel'', ''alternate'')] []]))
      = [Element ''link'' [(''rel'', ''alternate'')] []]
   \<and> push_url []
        (Element ''url'' [] [Element ''loc'' [] [], Element ''link'' [(''rel'', ''alternate'')] []])
      = []
   \<and> extractEntries
        [Element ''urlset'' []
          [Element ''url'' []
            [Element ''loc'' [] [], Element ''link'' [(''rel'', ''alternate'')] []]]]
      = Inl NoUrlsFound"
  by (simp add: extractEntries_def url_pass_def push_url_def query_text_def
      querySelector_def querySelectorAll_def)

section \<open>Properties of the serializer\<close>

lemma join_Cons: "join sep (x # xs) = x @ concat (map (\<lambda>y. sep @ y) xs)"
  by (induction xs arbitrary: x) simp_all

text \<open>
  C5, as amended. For a list of records that is not empty, the text is the header row
  followed, for each record in order, by a newline and the five fields, each between
  two double quotes and with commas between them; a field value is copied as it is,
  and a field that is not set gives two double quotes with nothing between. For the
  single record of the end-to-end example the text has two lines, the second being
  \<open>"https://a.com/","","","0.5",""\<close>. For the empty list the code returns before
  building any text: it gives no text at all, where the claim as written has the
  header row alone.
\<close>

theorem csv_rows:
  "(sitemapData \<noteq> [] \<longrightarrow>
      downloadCSV sitemapData =
        Some (''URL,Last Modified,Change Frequency,Priority,Alternates''
              @ concat (map (\<lambda>e. [CHR 0x0A]
                   @ [CHR 0x22] @ url e @ [CHR 0x22] @ '',''
                   @ [CHR 0x22] @ (case lastModified e of None \<Rightarrow> [] | Some s \<Rightarrow> s) @ [CHR 0x22] @ '',''
                   @ [CHR 0x22] @ (case changeFrequency e of None \<Rightarrow> [] | Some s \<Rightarrow> s) @ [CHR 0x22] @ '',''
                   @ [CHR 0x22] @ (case priority e of None \<Rightarrow> [] | Some s \<Rightarrow> s) @ [CHR 0x22] @ '',''
                   @ [CHR 0x22] @ (case alternates e of None \<Rightarrow> [] | Some s \<Rightarrow> s) @ [CHR 0x22])
                 sitemapData)))
   \<and> map_option split_nl
        (downloadCSV [\<lparr>url = ''https://a.com/'', lastModified = Some [], changeFrequency = Some [],
                        priority = Some ''0.5'', alternates = None\<rparr>])
      = Some [''URL,Last Modified,Change Frequency,Priority,Alternates'',
              [CHR 0x22] @ ''https://a.com/'' @ [CHR 0x22] @ '','' @ [CHR 0x22, CHR 0x22] @ '',''
                @ [CHR 0x22, CHR 0x22] @ '','' @ [CHR 0x22] @ ''0.5'' @ [CHR 0x22] @ '',''
                @ [CHR 0x22, CHR 0x22]]
   \<and> downloadCSV [] = None"
proof -
  have empty: "downloadCSV [] = None"
    by (simp add: downloadCSV_def)
  have row: "\<And>e. csv_row e = [CHR 0x22] @ url e @ [CHR 0x22] @ '',''
                   @ [CHR 0x22] @ (case lastModified e of None \<Rightarrow> [] | Some s \<Rightarrow> s) @ [CHR 0x22] @ '',''
                   @ [CHR 0x22] @ (case changeFrequency e of None \<Rightarrow> [] | Some s \<Rightarrow> s) @ [CHR 0x22] @ '',''
                   @ [CHR 0x22] @ (case priority e of None \<Rightarrow> [] | Some s \<Rightarrow> s) @ [CHR 0x22] @ '',''
                   @ [CHR 0x22] @ (case alternates e of None \<Rightarrow> [] | Some s \<Rightarrow> s) @ [CHR 0x22]"
    by (simp add: csv_row_def quoted_def or_empty_def)
  have hd: "join '','' headers = ''URL,Last Modified,Change Frequency,Priority,Alternates''"
    by (simp add: headers_def)
  have general: "sitemapData \<noteq> [] \<longrightarrow>
      downloadCSV sitemapData =
        Some (''URL,Last Modified,Change Frequency,Priority,Alternates''
              @ concat (map (\<lambda>e. [CHR 0x0A] @ csv_row e) sitemapData))"
    by (simp add: downloadCSV_def join_Cons hd comp_def)
  have one: "map_option split_nl
        (downloadCSV [\<lparr>url = ''https://a.com/'', lastModified = Some [], changeFrequency = Some [],
                        priority = Some ''0.5'', alternates = None\<rparr>])
      = Some [''URL,Last Modified,Change Frequency,Priority,Alternates'',
              [CHR 0x22] @ ''https://a.com/'' @ [CHR 0x22] @ '','' @ [CHR 0x22, CHR 0x22] @ '',''
                @ [CHR 0x22, CHR 0x22] @ '','' @ [CHR 0x22] @ ''0.5'' @ [CHR 0x22] @ '',''
                @ [CHR 0x22, CHR 0x22]]"
    by (simp add: downloadCSV_def hd csv_row_def quoted_def or_empty_def)
  from general have "sitemapData \<noteq> [] \<longrightarrow>
      downloadCSV sitemapData =
        Some (''URL,Last Modified,Change Frequency,Priority,Alternates''
              @ concat (map (\<lambda>e. [CHR 0x0A]
                   @ [CHR 0x22] @ url e @ [CHR 0x22] @ '',''
                   @ [CHR 0x22] @ (case lastModified e of None \<Rightarrow> [] | Some s \<Rightarrow> s) @ [CHR 0x22] @ '',''
                   @ [CHR 0x22] @ (case changeFrequency e of None \<Rightarrow> [] | Some s \<Rightarrow> s) @ [CHR 0x22] @ '',''
                   @ [CHR 0x22] @ (case priority e of None \<Rightarrow> [] | Some s \<Rightarrow> s) @ [CHR 0x22] @ '',''
                   @ [CHR 0x22] @ (case alternates e of None \<Rightarrow> [] | Some s \<Rightarrow> s) @ [CHR 0x22])
                 sitemapData))"
    by (simp only: row)
  with one empty show ?thesis
    by blast
qed

text \<open>The amended C5 at a record with two fields that are not set.\<close>

theorem csv_rows_witness:
  "downloadCSV [\<lparr>url = ''a'', lastModified = None, changeFrequency = Some ''daily'',
                  priority = None, alternates = Some ''en: b''\<rparr>]
     = Some (''URL,Last Modified,Change Frequency,Priority,Alternates'' @ [CHR 0x0A]
          @ [CHR 0x22] @ ''a'' @ [CHR 0x22] @ '','' @ [CHR 0x22, CHR 0x22] @ '',''
          @ [CHR 0x22] @ ''daily'' @ [CHR 0x22] @ '','' @ [CHR 0x22, CHR 0x22] @ '',''
          @ [CHR 0x22] @ ''en: b'' @ [CHR 0x22])"
  using csv_rows [of "[\<lparr>url = ''a'', lastModified = None, changeFrequency = Some ''daily'',
                  priority = None, alternates = Some ''en: b''\<rparr>]"]
  by simp

text \<open>
  C5 as written says that the empty list gives the header row alone. The code gives
  nothing for it.
\<close>

theorem csv_empty_counterexample:
  "downloadCSV [] = None
   \<and> downloadCSV [] \<noteq> Some ''URL,Last Modified,Change Frequency,Priority,Alternates''"
  by (simp add: downloadCSV_def)

end
